theory Spec2Isabelle
  imports Complex_Main "HOL-Library.Multiset" "HOL-Library.List_Lexorder" "HOL-Library.Product_Lexorder"
begin

section \<open>Aesop: world states and the backward planner\<close>

text \<open>
  A shallow embedding of \<^verbatim>\<open>AesopWorldState.cpp\<close> and \<^verbatim>\<open>AesopPlanner.cpp\<close>.
  Reads and writes that C++ leaves undefined (an index outside a vector, a null
  pointer followed) are the value \<open>None\<close> of an option result; a defined result is
  \<open>Some\<close>.
\<close>

subsection \<open>Types declared in the headers\<close>

text \<open>
  Modelled from the spec: the declarations of \<^verbatim>\<open>PName\<close>, \<^verbatim>\<open>PVal\<close>, \<^verbatim>\<open>objects\<close>,
  \<^verbatim>\<open>paramlist\<close>, \<^verbatim>\<open>Fact\<close>, \<^verbatim>\<open>Operation\<close>, \<^verbatim>\<open>ConditionType\<close> and \<^verbatim>\<open>EffectType\<close>
  are in headers that are not part of the sources at hand. A value is a number (the
  width of \<^verbatim>\<open>PVal\<close> is not known, so no wrap-around is modelled), a binding is a
  vector of values, a parameter index is a signed integer with \<open>-1\<close> for "none".
  The enumerators are the ones the two source files name.
\<close>

type_synonym PName = nat
type_synonym PVal = int
type_synonym objects = "PVal list"
type_synonym paramlist = "int list"

datatype ConditionType =
  NoCondition | IsSet | IsUnset | Equals | NotEqual | Less | Greater | LessEqual | GreaterEqual

datatype EffectType = NoEffect | Set | Unset | Increment | Decrement

record Operation =
  ctype :: ConditionType
  cval :: PVal
  cidx :: int
  etype :: EffectType
  eval :: PVal
  eidx :: int

record Fact =
  name :: PName
  args :: objects
  indices :: paramlist

text \<open>
  Modelled from the spec: the comparison operators of \<^verbatim>\<open>Fact\<close> (header) are
  structural over the name and the arguments. \<open>fact_key\<close> is the part of a fact they
  read; a \<^verbatim>\<open>std::map<Fact, PVal>\<close> is keyed by it, in the lexicographic order of
  pairs and vectors.
\<close>

type_synonym FactKey = "PName \<times> objects"

definition fact_key :: "Fact \<Rightarrow> FactKey" where
  "fact_key f = (name f, args f)"

text \<open>
  Modelled from the spec: \<^verbatim>\<open>Action\<close> is an external class; the two files use its
  clause iteration (\<^verbatim>\<open>begin()\<close>/\<^verbatim>\<open>end()\<close>), \<^verbatim>\<open>getNumParams()\<close>, \<^verbatim>\<open>getCost()\<close> and
  \<^verbatim>\<open>checkSpecialConditions(params)\<close>. Costs are \<^verbatim>\<open>float\<close> in the source and
  rationals-as-reals here; no property below depends on rounding.
\<close>

record Action =
  ops :: "(Fact \<times> Operation) list"
  getNumParams :: nat
  getCost :: real
  checkSpecialConditions :: "objects \<Rightarrow> bool"

subsection \<open>\<^verbatim>\<open>std::map\<close> as a list of entries in ascending key order\<close>

type_synonym ('k, 'v) cmap = "('k \<times> 'v) list"

definition map_inv :: "('k::linorder, 'v) cmap \<Rightarrow> bool" where
  "map_inv m = sorted_wrt (<) (map fst m)"

text \<open>\<^verbatim>\<open>m.find(k)\<close>: the entry's value, or \<open>None\<close> for \<^verbatim>\<open>m.end()\<close>.\<close>

fun map_find :: "('k::linorder, 'v) cmap \<Rightarrow> 'k \<Rightarrow> 'v option" where
  "map_find [] k = None"
| "map_find ((a, b) # m) k = (if k = a then Some b else map_find m k)"

text \<open>\<^verbatim>\<open>m[k] = v\<close>: overwrite the entry, or add it at its place in the order.\<close>

fun map_assign :: "'k::linorder \<Rightarrow> 'v \<Rightarrow> ('k, 'v) cmap \<Rightarrow> ('k, 'v) cmap" where
  "map_assign k v [] = [(k, v)]"
| "map_assign k v ((a, b) # m) =
     (if k < a then (k, v) # (a, b) # m
      else if k = a then (k, v) # m
      else (a, b) # map_assign k v m)"

text \<open>\<^verbatim>\<open>m.insert(make_pair(k, v))\<close>: add the entry unless the key is there already.\<close>

fun map_insert :: "'k::linorder \<Rightarrow> 'v \<Rightarrow> ('k, 'v) cmap \<Rightarrow> ('k, 'v) cmap" where
  "map_insert k v [] = [(k, v)]"
| "map_insert k v ((a, b) # m) =
     (if k < a then (k, v) # (a, b) # m
      else if k = a then (a, b) # m
      else (a, b) # map_insert k v m)"

text \<open>\<^verbatim>\<open>m.erase(k)\<close>.\<close>

fun map_erase :: "'k::linorder \<Rightarrow> ('k, 'v) cmap \<Rightarrow> ('k, 'v) cmap" where
  "map_erase k [] = []"
| "map_erase k ((a, b) # m) = (if k = a then m else (a, b) # map_erase k m)"

subsection \<open>\<^verbatim>\<open>IntersectMaps\<close>\<close>

text \<open>
  The two iterators walk the entries of \<open>left\<close> and \<open>right\<close> in key order; the
  third argument is \<^verbatim>\<open>result\<close>.
\<close>

fun IntersectMaps_loop ::
  "('k::linorder, 'a) cmap \<Rightarrow> ('k, 'b) cmap \<Rightarrow> ('k, 'a \<times> 'b) cmap \<Rightarrow> ('k, 'a \<times> 'b) cmap" where
  "IntersectMaps_loop [] ir result = result"
| "IntersectMaps_loop (l # il) [] result = result"
| "IntersectMaps_loop ((kl, vl) # il) ((kr, vr) # ir) result =
     (if kl < kr then IntersectMaps_loop il ((kr, vr) # ir) result
      else if kr < kl then IntersectMaps_loop ((kl, vl) # il) ir result
      else IntersectMaps_loop il ir (map_insert kl (vl, vr) result))"

definition IntersectMaps :: "('k::linorder, 'a) cmap \<Rightarrow> ('k, 'b) cmap \<Rightarrow> ('k, 'a \<times> 'b) cmap" where
  "IntersectMaps left right = IntersectMaps_loop left right []"

subsection \<open>\<^verbatim>\<open>WorldState\<close>\<close>

text \<open>
  \<^verbatim>\<open>mState\<close> is the mapping. The cached digest \<^verbatim>\<open>mHash\<close> is left out: \<^verbatim>\<open>updateHash\<close>
  recomputes it from \<^verbatim>\<open>mState\<close> alone at the end of every public mutator, and no
  function of the two files reads it.
  Modelled from the spec: \<^verbatim>\<open>WorldState::operator==\<close> (header) is equality of the
  whole mapping, which is equality of the entry lists here.
\<close>

record WorldState =
  mState :: "(FactKey, PVal) cmap"

definition WorldState_new :: WorldState where
  "WorldState_new = \<lparr>mState = []\<rparr>"

definition set_raw :: "WorldState \<Rightarrow> Fact \<Rightarrow> PVal \<Rightarrow> WorldState" where
  \<comment> \<open>\<^verbatim>\<open>WorldState::_set\<close>\<close>
  "set_raw ws fa v = ws\<lparr>mState := map_assign (fact_key fa) v (mState ws)\<rparr>"

definition unset_raw :: "WorldState \<Rightarrow> Fact \<Rightarrow> WorldState" where
  \<comment> \<open>\<^verbatim>\<open>WorldState::_unset\<close>\<close>
  "unset_raw ws fa = ws\<lparr>mState := map_erase (fact_key fa) (mState ws)\<rparr>"

definition set_fact :: "WorldState \<Rightarrow> Fact \<Rightarrow> PVal \<Rightarrow> WorldState" where
  \<comment> \<open>\<^verbatim>\<open>WorldState::set\<close>\<close>
  "set_fact ws fa v = set_raw ws fa v"

definition unset_fact :: "WorldState \<Rightarrow> Fact \<Rightarrow> WorldState" where
  \<comment> \<open>\<^verbatim>\<open>WorldState::unset\<close>\<close>
  "unset_fact ws fa = unset_raw ws fa"

text \<open>
  \<^verbatim>\<open>WorldState::get\<close>: \<open>Some v\<close> is "returns true with \<^verbatim>\<open>val = v\<close>", \<open>None\<close> is
  "returns false" (\<^verbatim>\<open>val\<close> then holds the default, which no caller reads).
\<close>

definition get :: "WorldState \<Rightarrow> Fact \<Rightarrow> PVal option" where
  "get ws fa = map_find (mState ws) (fact_key fa)"

subsection \<open>Consistency of a value with a condition and with an effect\<close>

text \<open>
  The first overload of \<^verbatim>\<open>consistent\<close>. A \<^verbatim>\<open>break\<close> leaves the switch for the final
  \<^verbatim>\<open>return true\<close>; so does an enumerator without a case.
\<close>

fun consistent :: "PVal \<Rightarrow> ConditionType \<Rightarrow> PVal \<Rightarrow> bool" where
  "consistent v IsUnset c = False"
| "consistent v Equals c = (if v \<noteq> c then False else True)"
| "consistent v NotEqual c = (if v \<noteq> c then False else True)"
| "consistent v Less c = (if v \<ge> c then False else True)"
| "consistent v Greater c = (if v \<le> c then False else True)"
| "consistent v LessEqual c = (if v > c then False else True)"
| "consistent v GreaterEqual c = (if v < c then False else True)"
| "consistent v NoCondition c = True"
| "consistent v IsSet c = True"

text \<open>The second overload, on effects.\<close>

fun consistent_effect :: "PVal \<Rightarrow> EffectType \<Rightarrow> PVal \<Rightarrow> bool" where
  "consistent_effect v Set e = (v = e)"
| "consistent_effect v Unset e = False"
| "consistent_effect v Increment e = (if v \<noteq> e + 1 then False else True)"
| "consistent_effect v Decrement e = (if v \<noteq> e - 1 then False else True)"
| "consistent_effect v NoEffect e = True"

subsection \<open>Filling a clause from a binding\<close>

text \<open>\<^verbatim>\<open>params[i]\<close> on a vector: undefined outside \<open>0 .. size - 1\<close>.\<close>

definition param_at :: "objects \<Rightarrow> int \<Rightarrow> PVal option" where
  "param_at ps i = (if 0 \<le> i \<and> i < int (length ps) then Some (ps ! nat i) else None)"

definition fillOp :: "Operation \<Rightarrow> objects \<Rightarrow> Operation option" where
  "fillOp opn ps =
     (case (if cidx opn > -1
            then map_option (\<lambda>v. opn\<lparr>cval := v\<rparr>) (param_at ps (cidx opn))
            else Some opn) of
        None \<Rightarrow> None
      | Some op1 \<Rightarrow>
          if eidx op1 > -1
          then map_option (\<lambda>v. op1\<lparr>eval := v\<rparr>) (param_at ps (eidx op1))
          else Some op1)"

text \<open>
  The loop of \<^verbatim>\<open>fillFact\<close>: \<open>as\<close> is \<^verbatim>\<open>f.args\<close>, the list is what is left of
  \<^verbatim>\<open>f.indices\<close>, \<open>i\<close> the position. \<^verbatim>\<open>f.args[i]\<close> is written, so \<open>i\<close> must be a
  position of \<^verbatim>\<open>f.args\<close>.
\<close>

fun fillFact_loop :: "objects \<Rightarrow> paramlist \<Rightarrow> nat \<Rightarrow> objects \<Rightarrow> objects option" where
  "fillFact_loop as [] i ps = Some as"
| "fillFact_loop as (p # rest) i ps =
     (if p \<noteq> -1 then
        (case param_at ps p of
           None \<Rightarrow> None
         | Some v \<Rightarrow> if i < length as then fillFact_loop (as[i := v]) rest (Suc i) ps else None)
      else fillFact_loop as rest (Suc i) ps)"

definition fillFact :: "Fact \<Rightarrow> objects \<Rightarrow> Fact option" where
  "fillFact f ps = map_option (\<lambda>as. f\<lparr>args := as\<rparr>) (fillFact_loop (args f) (indices f) 0 ps)"

text \<open>
  The head of each loop body in \<^verbatim>\<open>preMatch\<close>, \<^verbatim>\<open>postMatch\<close> and \<^verbatim>\<open>applyReverse\<close>:
  copy the clause, and fill it when the binding is not empty.
\<close>

definition fill :: "Fact \<times> Operation \<Rightarrow> objects \<Rightarrow> (Fact \<times> Operation) option" where
  "fill cl ps =
     (if ps \<noteq> [] then
        (case fillOp (snd cl) ps of
           None \<Rightarrow> None
         | Some opn \<Rightarrow> (case fillFact (fst cl) ps of None \<Rightarrow> None | Some f \<Rightarrow> Some (f, opn)))
      else Some cl)"

subsection \<open>\<^verbatim>\<open>preMatch\<close> and \<^verbatim>\<open>postMatch\<close>\<close>

fun preMatch_loop :: "WorldState \<Rightarrow> objects \<Rightarrow> (Fact \<times> Operation) list \<Rightarrow> bool option" where
  "preMatch_loop ws ps [] = Some True"
| "preMatch_loop ws ps (cl # rest) =
     (if ctype (snd cl) = NoCondition then preMatch_loop ws ps rest
      else
        (case fill cl ps of
           None \<Rightarrow> None
         | Some (f, opn) \<Rightarrow>
             (case get ws f of
                Some v \<Rightarrow>
                  if \<not> consistent v (ctype opn) (cval opn) then Some False
                  else preMatch_loop ws ps rest
              | None \<Rightarrow>
                  if ctype opn \<noteq> IsUnset then Some False
                  else preMatch_loop ws ps rest)))"

definition preMatch :: "WorldState \<Rightarrow> Action \<Rightarrow> objects \<Rightarrow> bool option" where
  "preMatch ws a ps =
     (if \<not> checkSpecialConditions a ps then Some False else preMatch_loop ws ps (ops a))"

text \<open>The last argument of the loop is the counter \<^verbatim>\<open>consistencies\<close>.\<close>

fun postMatch_loop ::
  "WorldState \<Rightarrow> objects \<Rightarrow> (Fact \<times> Operation) list \<Rightarrow> nat \<Rightarrow> bool option" where
  "postMatch_loop ws ps [] consistencies = Some (consistencies > 0)"
| "postMatch_loop ws ps (cl # rest) consistencies =
     (case fill cl ps of
        None \<Rightarrow> None
      | Some (f, opn) \<Rightarrow>
          if etype opn = NoEffect then
            (if ctype opn \<noteq> NoCondition then
               (case get ws f of
                  Some v \<Rightarrow>
                    if \<not> consistent v (ctype opn) (cval opn) then Some False
                    else postMatch_loop ws ps rest (consistencies + 1)
                | None \<Rightarrow> postMatch_loop ws ps rest consistencies)
             else postMatch_loop ws ps rest consistencies)
          else
            (case get ws f of
               Some v \<Rightarrow>
                 if \<not> consistent_effect v (etype opn) (eval opn) then Some False
                 else postMatch_loop ws ps rest (consistencies + 1)
             | None \<Rightarrow> postMatch_loop ws ps rest consistencies))"

definition postMatch :: "WorldState \<Rightarrow> Action \<Rightarrow> objects \<Rightarrow> bool option" where
  "postMatch ws a ps =
     (if \<not> checkSpecialConditions a ps then Some False else postMatch_loop ws ps (ops a) 0)"

subsection \<open>\<^verbatim>\<open>applyForward\<close> and \<^verbatim>\<open>applyReverse\<close>\<close>

text \<open>The body of \<^verbatim>\<open>applyForward\<close> is the call of \<^verbatim>\<open>updateHash\<close> and nothing else.\<close>

definition applyForward :: "WorldState \<Rightarrow> Action \<Rightarrow> objects \<Rightarrow> WorldState" where
  "applyForward ws a ps = ws"

text \<open>One clause of \<^verbatim>\<open>applyReverse\<close>, after it has been filled: the two switches.\<close>

definition applyReverse_clause :: "WorldState \<Rightarrow> Fact \<Rightarrow> Operation \<Rightarrow> WorldState" where
  "applyReverse_clause ws f opn =
     (if ctype opn = NoCondition then
        (case etype opn of
           Set \<Rightarrow> unset_raw ws f
         | Unset \<Rightarrow> set_raw ws f (eval opn)
         | Increment \<Rightarrow> set_raw ws f (eval opn - 1)
         | Decrement \<Rightarrow> set_raw ws f (eval opn + 1)
         | NoEffect \<Rightarrow> ws)
      else
        (case ctype opn of
           IsSet \<Rightarrow> set_raw ws f 0
         | Equals \<Rightarrow> set_raw ws f (cval opn)
         | IsUnset \<Rightarrow> unset_raw ws f
         | _ \<Rightarrow> ws))"

fun applyReverse_loop ::
  "WorldState \<Rightarrow> objects \<Rightarrow> (Fact \<times> Operation) list \<Rightarrow> WorldState option" where
  "applyReverse_loop ws ps [] = Some ws"
| "applyReverse_loop ws ps (cl # rest) =
     (case fill cl ps of
        None \<Rightarrow> None
      | Some (f, opn) \<Rightarrow> applyReverse_loop (applyReverse_clause ws f opn) ps rest)"

definition applyReverse :: "WorldState \<Rightarrow> Action \<Rightarrow> objects \<Rightarrow> WorldState option" where
  "applyReverse ws a ps = applyReverse_loop ws ps (ops a)"

subsection \<open>\<^verbatim>\<open>compStart\<close> and \<^verbatim>\<open>comp\<close>\<close>

fun compStart_loop :: "(FactKey, PVal \<times> PVal) cmap \<Rightarrow> nat \<Rightarrow> nat" where
  "compStart_loop [] score = score"
| "compStart_loop ((k, (a, b)) # rest) score =
     compStart_loop rest (if a \<noteq> b then score + 1 else score)"

definition compStart :: "WorldState \<Rightarrow> WorldState \<Rightarrow> nat" where
  "compStart ws1 ws2 = compStart_loop (IntersectMaps (mState ws1) (mState ws2)) 0"

text \<open>
  \<^verbatim>\<open>WorldState::comp\<close> returns at its second statement; the scan after it is never
  reached.
\<close>

definition comp_ws :: "WorldState \<Rightarrow> WorldState \<Rightarrow> nat" where
  "comp_ws ws1 ws2 = (if mState ws1 = mState ws2 then 0 else 1)"

subsection \<open>The planner's data\<close>

text \<open>
  Modelled from the spec: \<^verbatim>\<open>ActionEntry\<close>, \<^verbatim>\<open>IntermediateState\<close>, \<^verbatim>\<open>ActionSet\<close> and the
  members of \<^verbatim>\<open>Planner\<close> are declared in the header. A pointer is an option (\<open>None\<close>
  is \<^verbatim>\<open>NULL\<close>) of the object it points to, which the planner only reads. Unsigned
  counters are naturals, wrapped at \<open>2 ^ 32\<close> where the source can wrap them.
\<close>

record ActionEntry =
  ac :: "Action option"
  params :: objects

record IntermediateState =
  state :: WorldState
  G :: real
  H :: real
  F :: real
  prev :: nat
  ID :: nat
  ac :: "Action option"
  params :: objects

type_synonym ActionSet = "(Action option \<times> real) list"

record Planner =
  mStart :: "WorldState option"
  mGoal :: "WorldState option"
  mConstants :: "WorldState option"
  mActions :: "ActionSet option"
  mSuccess :: bool
  mId :: nat
  mOpenList :: "IntermediateState list"
  mClosedList :: "IntermediateState list"
  mPlan :: "ActionEntry list"
  mObjects :: objects

text \<open>
  Modelled from the spec: the default constructor of \<^verbatim>\<open>IntermediateState\<close> (header); a
  fresh node has an empty state and zero scores.
\<close>

definition IntermediateState_new :: IntermediateState where
  "IntermediateState_new =
     \<lparr>state = WorldState_new, G = 0, H = 0, F = 0, prev = 0, ID = 0, ac = None, params = []\<rparr>"

text \<open>
  Modelled from the spec: \<^verbatim>\<open>operator<\<close> of \<^verbatim>\<open>IntermediateState\<close> (header) orders nodes
  by \<^verbatim>\<open>F\<close>, lower first.
\<close>

definition IntermediateState_less :: "IntermediateState \<Rightarrow> IntermediateState \<Rightarrow> bool" where
  "IntermediateState_less a b = (F a < F b)"

text \<open>
  \<^verbatim>\<open>std::pop_heap\<close>, \<^verbatim>\<open>std::push_heap\<close> and \<^verbatim>\<open>std::make_heap\<close> with
  \<^verbatim>\<open>std::greater<IntermediateState>\<close> are library code: each rearranges the whole open
  list. They are parameters of the planner's functions; \<open>heap_permutes\<close> is the one
  property of them that is used, that the rearranged list has the same entries.
\<close>

record heap_ops =
  pop_heap :: "IntermediateState list \<Rightarrow> IntermediateState list"
  push_heap :: "IntermediateState list \<Rightarrow> IntermediateState list"
  make_heap :: "IntermediateState list \<Rightarrow> IntermediateState list"

definition heap_permutes :: "heap_ops \<Rightarrow> bool" where
  "heap_permutes hp =
     ((\<forall>xs. mset (pop_heap hp xs) = mset xs) \<and>
      (\<forall>xs. mset (push_heap hp xs) = mset xs) \<and>
      (\<forall>xs. mset (make_heap hp xs) = mset xs))"

subsection \<open>Construction\<close>

definition Planner_new ::
  "WorldState option \<Rightarrow> WorldState option \<Rightarrow> WorldState option \<Rightarrow> ActionSet option \<Rightarrow> Planner" where
  "Planner_new start goal con aset =
     \<lparr>mStart = start, mGoal = goal, mConstants = con, mActions = aset, mSuccess = False,
      mId = 0, mOpenList = [], mClosedList = [], mPlan = [], mObjects = []\<rparr>"

text \<open>
  The body of the default constructor is the expression statement
  \<^verbatim>\<open>Planner(NULL, NULL, NULL, NULL);\<close>: it builds a temporary object with the other
  constructor and destroys it. The object under construction gets its containers
  default-constructed and nothing else; its pointers, flag and counter keep whatever
  the storage held, which is the argument \<open>junk\<close>.
\<close>

definition Planner_default :: "Planner \<Rightarrow> Planner" where
  "Planner_default junk =
     (let tmp = Planner_new None None None None
      in junk\<lparr>mOpenList := [], mClosedList := [], mPlan := [], mObjects := []\<rparr>)"

definition setStart :: "Planner \<Rightarrow> WorldState option \<Rightarrow> Planner" where
  "setStart p start = p\<lparr>mStart := start\<rparr>"

definition setGoal :: "Planner \<Rightarrow> WorldState option \<Rightarrow> Planner" where
  "setGoal p goal = p\<lparr>mGoal := goal\<rparr>"

definition setConstants :: "Planner \<Rightarrow> WorldState option \<Rightarrow> Planner" where
  "setConstants p con = p\<lparr>mConstants := con\<rparr>"

definition setActions :: "Planner \<Rightarrow> ActionSet option \<Rightarrow> Planner" where
  "setActions p aset = p\<lparr>mActions := aset\<rparr>"

definition getPlan :: "Planner \<Rightarrow> ActionEntry list" where
  "getPlan p = mPlan p"

text \<open>Modelled from the spec: \<^verbatim>\<open>success()\<close> (header) reads the flag.\<close>

definition success :: "Planner \<Rightarrow> bool" where
  "success p = mSuccess p"

subsection \<open>\<^verbatim>\<open>initSlicedPlan\<close>\<close>

text \<open>The logging calls on \<^verbatim>\<open>ctx\<close> change nothing of the planner and are left out.\<close>

definition initSlicedPlan :: "Planner \<Rightarrow> bool \<times> Planner" where
  "initSlicedPlan p =
     (if mStart p = None \<or> mGoal p = None \<or> mActions p = None then (False, p)
      else
        (let p1 = p\<lparr>mSuccess := False, mOpenList := [], mClosedList := [], mId := 0\<rparr>;
             p2 = p1\<lparr>mOpenList := mOpenList p1 @ [IntermediateState_new]\<rparr>;
             p3 = p2\<lparr>mOpenList :=
                      butlast (mOpenList p2) @ [(last (mOpenList p2))\<lparr>state := the (mGoal p2)\<rparr>]\<rparr>;
             p4 = p3\<lparr>mOpenList :=
                      butlast (mOpenList p3) @ [(last (mOpenList p3))\<lparr>ID := mId p3\<rparr>],
                     mId := (mId p3 + 1) mod 2 ^ 32\<rparr>
         in (True, p4)))"

subsection \<open>\<^verbatim>\<open>finaliseSlicedPlan\<close>\<close>

text \<open>
  The walk \<^verbatim>\<open>while(i)\<close> up the closed list. It reads \<^verbatim>\<open>mClosedList[i]\<close>, which is
  undefined outside the list, and it need not end: both are \<open>None\<close>.
\<close>

partial_function (option) finalise_loop ::
  "IntermediateState list \<Rightarrow> nat \<Rightarrow> ActionEntry list \<Rightarrow> ActionEntry list option" where
  "finalise_loop cl i pl =
     (if i \<noteq> 0 then
        (if i < length cl then
           finalise_loop cl (prev (cl ! i))
             (pl @ [\<lparr>ActionEntry.ac = ac (cl ! i), params = params (cl ! i)\<rparr>])
         else None)
      else Some pl)"

definition finaliseSlicedPlan :: "Planner \<Rightarrow> Planner option" where
  "finaliseSlicedPlan p =
     (case (if success p
            then finalise_loop (mClosedList p)
                   (nat ((int (length (mClosedList p)) - 1) mod 2 ^ 32)) []
            else Some []) of
        None \<Rightarrow> None
      | Some pl \<Rightarrow> Some (p\<lparr>mPlan := pl, mOpenList := [], mClosedList := []\<rparr>))"

subsection \<open>Parameter bindings\<close>

text \<open>
  The inner \<^verbatim>\<open>while\<close> of "increment and overflow". \<open>obj\<close> is read once before the
  loop and never again.
\<close>

function carry_loop :: "nat \<Rightarrow> nat \<Rightarrow> nat list \<Rightarrow> nat \<Rightarrow> nat list" where
  "carry_loop obj sz objs j =
     (if obj = sz \<and> j > 0
      then carry_loop obj sz ((objs[j := 0])[j - 1 := (objs[j := 0]) ! (j - 1) + 1]) (j - 1)
      else objs)"
  by pat_completeness auto
termination
  by (relation "measure (\<lambda>(obj, sz, objs, j). j)") auto

text \<open>\<^verbatim>\<open>unsigned int obj = ++objs[--j];\<close> with \<open>j = nparams\<close>, then the carry.\<close>

definition next_objs :: "nat \<Rightarrow> nat \<Rightarrow> nat list \<Rightarrow> nat list" where
  "next_objs sz nparams objs =
     (let j = nparams - 1;
          objs1 = objs[j := objs ! j + 1];
          obj = objs1 ! j
      in carry_loop obj sz objs1 j)"

text \<open>
  The loop over \<open>i\<close>; the third argument counts the iterations left. A row reads
  \<^verbatim>\<open>mObjects[objs[j]]\<close> for every \<open>j\<close>, which is undefined when a counter has left
  the pool.
\<close>

fun paramset_loop :: "objects \<Rightarrow> nat \<Rightarrow> nat \<Rightarrow> nat list \<Rightarrow> objects list option" where
  "paramset_loop mobjs nparams 0 objs = Some []"
| "paramset_loop mobjs nparams (Suc k) objs =
     (if list_all (\<lambda>ob. ob < length mobjs) objs
      then map_option ((#) (map (\<lambda>ob. mobjs ! ob) objs))
             (paramset_loop mobjs nparams k (next_objs (length mobjs) nparams objs))
      else None)"

text \<open>
  \<^verbatim>\<open>permutations\<close> is \<^verbatim>\<open>(unsigned int)pow((float)mObjects.size(), (float)nparams)\<close>,
  the power itself as long as \<^verbatim>\<open>float\<close> holds it exactly.
\<close>

definition build_paramset :: "objects \<Rightarrow> nat \<Rightarrow> objects list option" where
  "build_paramset mobjs nparams =
     paramset_loop mobjs nparams (length mobjs ^ nparams) (replicate nparams 0)"

subsection \<open>\<^verbatim>\<open>attemptIntermediate\<close>\<close>

text \<open>The scan of the open list: the position of the first entry with the state.\<close>

fun open_scan :: "WorldState \<Rightarrow> IntermediateState list \<Rightarrow> nat \<Rightarrow> nat option" where
  "open_scan st [] i = None"
| "open_scan st (x # xs) i = (if st = state x then Some i else open_scan st xs (Suc i))"

definition attemptIntermediate ::
  "heap_ops \<Rightarrow> Planner \<Rightarrow> IntermediateState \<Rightarrow> Action \<Rightarrow> real \<Rightarrow> objects \<Rightarrow> Planner option" where
  "attemptIntermediate hp p s a pref plist =
     (case postMatch (state s) a plist of
        None \<Rightarrow> None
      | Some False \<Rightarrow> Some p
      | Some True \<Rightarrow>
          (case applyReverse (state s) a plist of
             None \<Rightarrow> None
           | Some nstate \<Rightarrow>
               if list_ex (\<lambda>c. nstate = state c) (mClosedList p) then Some p
               else
                 (case mStart p of
                    None \<Rightarrow> None
                  | Some start \<Rightarrow>
                      (let h = real (comp_ws nstate start);
                           g = G s + getCost a * pref;
                           n = IntermediateState_new
                                 \<lparr>state := nstate, G := g, H := h, F := g + h, prev :=
                                    nat ((int (length (mClosedList p)) - 1) mod 2 ^ 32),
                                  ac := Some a, params := plist\<rparr>
                       in (case open_scan nstate (mOpenList p) 0 of
                             Some k \<Rightarrow>
                               if IntermediateState_less n (mOpenList p ! k)
                               then Some (p\<lparr>mOpenList := make_heap hp ((mOpenList p)[k := n])\<rparr>)
                               else Some p
                           | None \<Rightarrow>
                               Some (p\<lparr>mOpenList := push_heap hp (mOpenList p @ [n\<lparr>ID := mId p\<rparr>]),
                                       mId := (mId p + 1) mod 2 ^ 32\<rparr>))))))"

subsection \<open>\<^verbatim>\<open>updateSlicedPlan\<close>\<close>

fun attempt_all ::
  "heap_ops \<Rightarrow> Planner \<Rightarrow> IntermediateState \<Rightarrow> Action \<Rightarrow> real \<Rightarrow> objects list \<Rightarrow> Planner option" where
  "attempt_all hp p s a pref [] = Some p"
| "attempt_all hp p s a pref (plist # rest) =
     (case attemptIntermediate hp p s a pref plist of
        None \<Rightarrow> None
      | Some p' \<Rightarrow> attempt_all hp p' s a pref rest)"

text \<open>The loop over the action set; a null action is skipped.\<close>

fun actions_loop ::
  "heap_ops \<Rightarrow> Planner \<Rightarrow> IntermediateState \<Rightarrow> ActionSet \<Rightarrow> Planner option" where
  "actions_loop hp p s [] = Some p"
| "actions_loop hp p s ((None, pref) # rest) = actions_loop hp p s rest"
| "actions_loop hp p s ((Some a, pref) # rest) =
     (case (if getNumParams a \<noteq> 0 \<and> mObjects p \<noteq> []
            then (case build_paramset (mObjects p) (getNumParams a) of
                    None \<Rightarrow> None
                  | Some pset \<Rightarrow> attempt_all hp p s a pref pset)
            else attemptIntermediate hp p s a pref []) of
        None \<Rightarrow> None
      | Some p' \<Rightarrow> actions_loop hp p' s rest)"

definition updateSlicedPlan :: "heap_ops \<Rightarrow> Planner \<Rightarrow> (bool \<times> Planner) option" where
  "updateSlicedPlan hp p =
     (if mOpenList p \<noteq> [] then
        (let ol = pop_heap hp (mOpenList p);
             s = last ol;
             p1 = p\<lparr>mOpenList := butlast ol, mClosedList := mClosedList p @ [s]\<rparr>
         in (case mStart p1 of
               None \<Rightarrow> None
             | Some start \<Rightarrow>
                 if compStart (state s) start = 0 then Some (False, p1\<lparr>mSuccess := True\<rparr>)
                 else
                   (case mActions p1 of
                      None \<Rightarrow> None
                    | Some aset \<Rightarrow> map_option (Pair True) (actions_loop hp p1 s aset))))
      else Some (False, p))"

subsection \<open>Notions of the specification\<close>

text \<open>
  The specification's "a clause is consistent with the current state", on a filled
  clause: the fact has a value, and the value passes the check the clause calls for
  (the effect's when the clause has an effect, the condition's when it has none but
  has a condition). \<open>clause_inconsistent\<close> is the same with the check failing.
\<close>

definition clause_consistent :: "WorldState \<Rightarrow> Fact \<Rightarrow> Operation \<Rightarrow> bool" where
  "clause_consistent ws f opn =
     (case get ws f of
        None \<Rightarrow> False
      | Some v \<Rightarrow>
          if etype opn \<noteq> NoEffect then consistent_effect v (etype opn) (eval opn)
          else if ctype opn \<noteq> NoCondition then consistent v (ctype opn) (cval opn)
          else False)"

definition clause_inconsistent :: "WorldState \<Rightarrow> Fact \<Rightarrow> Operation \<Rightarrow> bool" where
  "clause_inconsistent ws f opn =
     (case get ws f of
        None \<Rightarrow> False
      | Some v \<Rightarrow>
          if etype opn \<noteq> NoEffect then \<not> consistent_effect v (etype opn) (eval opn)
          else if ctype opn \<noteq> NoCondition then \<not> consistent v (ctype opn) (cval opn)
          else False)"

text \<open>An action "whose clauses are all effect-only": no clause has a condition.\<close>

definition effect_only :: "Action \<Rightarrow> bool" where
  "effect_only a = list_all (\<lambda>cl. ctype (snd cl) = NoCondition) (ops a)"

text \<open>
  What \<^verbatim>\<open>IntersectMaps\<close> is to compute at a key: the pair of the two values when both
  maps have the key.
\<close>

definition both :: "('k::linorder, 'a) cmap \<Rightarrow> ('k, 'b) cmap \<Rightarrow> 'k \<Rightarrow> ('a \<times> 'b) option" where
  "both l r k =
     (case map_find l k of
        None \<Rightarrow> None
      | Some a \<Rightarrow> (case map_find r k of None \<Rightarrow> None | Some b \<Rightarrow> Some (a, b)))"

text \<open>
  A closed list on which the walk of \<open>finaliseSlicedPlan\<close> ends: it is not empty, and
  every entry but the first names an earlier entry as its predecessor.
\<close>

definition closed_wf :: "IntermediateState list \<Rightarrow> bool" where
  "closed_wf cl = (cl \<noteq> [] \<and> list_all (\<lambda>i. prev (cl ! i) < i) [1..<length cl])"

text \<open>
  The planner states of a search: from a planner whose two lists are empty (as both
  constructors and \<open>finaliseSlicedPlan\<close> leave them), by calls of \<open>initSlicedPlan\<close> and
  of \<open>updateSlicedPlan\<close> that return.
\<close>

inductive reachable :: "heap_ops \<Rightarrow> Planner \<Rightarrow> bool" for hp :: heap_ops where
  idle: "mOpenList p = [] \<Longrightarrow> mClosedList p = [] \<Longrightarrow> reachable hp p"
| init: "reachable hp p \<Longrightarrow> reachable hp (snd (initSlicedPlan p))"
| update: "reachable hp p \<Longrightarrow> updateSlicedPlan hp p = Some (b, p') \<Longrightarrow> reachable hp p'"

text \<open>No two nodes of the open and the closed list together have equal states.\<close>

definition states_distinct :: "Planner \<Rightarrow> bool" where
  "states_distinct p = distinct (map state (mOpenList p @ mClosedList p))"

text \<open>
  The planner states of one search: what a successful \<open>initSlicedPlan\<close> returns, and
  what \<open>updateSlicedPlan\<close> returns from there.
\<close>

inductive searching :: "heap_ops \<Rightarrow> Planner \<Rightarrow> bool" for hp :: heap_ops where
  started: "initSlicedPlan p0 = (True, p) \<Longrightarrow> searching hp p"
| stepped: "searching hp p \<Longrightarrow> updateSlicedPlan hp p = Some (b, p') \<Longrightarrow> searching hp p'"

text \<open>
  Every predecessor index points backwards: in the closed list to an earlier entry,
  in the open list into the closed list. Before the first expansion the closed list is
  empty, the open list holds the root alone and the success flag is down.
\<close>

definition prev_ok :: "Planner \<Rightarrow> bool" where
  "prev_ok p =
     (list_all (\<lambda>i. prev (mClosedList p ! i) < i) [1..<length (mClosedList p)] \<and>
      (if mClosedList p = [] then length (mOpenList p) \<le> 1 \<and> \<not> mSuccess p
       else list_all (\<lambda>n. prev n < length (mClosedList p)) (mOpenList p)))"

text \<open>
  One instance of the heap operations, for running the planner on concrete inputs:
  \<open>pop_heap\<close> carries a node of least \<^verbatim>\<open>F\<close> to the back in one pass, the other two
  leave the list as it is.
\<close>

fun sink_least :: "IntermediateState list \<Rightarrow> IntermediateState list" where
  "sink_least (x # y # ys) =
     (if F x \<le> F y then y # sink_least (x # ys) else x # sink_least (y # ys))"
| "sink_least xs = xs"

definition list_heap :: heap_ops where
  "list_heap = \<lparr>pop_heap = sink_least, push_heap = (\<lambda>xs. xs), make_heap = (\<lambda>xs. xs)\<rparr>"

subsection \<open>Concrete inputs\<close>

definition ex_fact1 :: Fact where
  "ex_fact1 = \<lparr>name = 1, args = [], indices = []\<rparr>"

definition ex_fact2 :: Fact where
  "ex_fact2 = \<lparr>name = 2, args = [], indices = []\<rparr>"

definition ex_set :: "PVal \<Rightarrow> Operation" where
  "ex_set v = \<lparr>ctype = NoCondition, cval = 0, cidx = -1, etype = Set, eval = v, eidx = -1\<rparr>"

definition ex_state :: WorldState where
  "ex_state = \<lparr>mState = [((1, []), 1), ((2, []), 1)]\<rparr>"

text \<open>Two clauses, "fact 1 is set to 1" and "fact 2 is set to 2"; no parameters.\<close>

definition ex_action :: Action where
  "ex_action =
     \<lparr>ops = [(ex_fact1, ex_set 1), (ex_fact2, ex_set 2)], getNumParams = 0, getCost = 1,
      checkSpecialConditions = (\<lambda>ps. True)\<rparr>"

text \<open>The first clause alone.\<close>

definition ex_action1 :: Action where
  "ex_action1 =
     \<lparr>ops = [(ex_fact1, ex_set 1)], getNumParams = 0, getCost = 1,
      checkSpecialConditions = (\<lambda>ps. True)\<rparr>"

definition ex_start :: WorldState where
  "ex_start = \<lparr>mState = [((1, []), 5)]\<rparr>"

definition ex_rest :: WorldState where
  "ex_rest = \<lparr>mState = [((2, []), 1)]\<rparr>"

definition ex_other :: WorldState where
  "ex_other = \<lparr>mState = [((1, []), 1), ((2, []), 5), ((3, []), 5)]\<rparr>"

text \<open>
  A search from the goal \<open>ex_state\<close> back to the start \<open>ex_start\<close> with the one action
  \<open>ex_action1\<close>: the planner as constructed, after \<open>initSlicedPlan\<close>, and after the
  first and the second \<open>updateSlicedPlan\<close>.
\<close>

definition ex_p0 :: Planner where
  "ex_p0 = Planner_new (Some ex_start) (Some ex_state) None (Some [(Some ex_action1, 1)])"

definition ex_root :: IntermediateState where
  "ex_root = IntermediateState_new\<lparr>state := ex_state\<rparr>"

definition ex_pred :: IntermediateState where
  "ex_pred =
     IntermediateState_new\<lparr>state := ex_rest, G := 1, H := 1, F := 2, prev := 0,
       ac := Some ex_action1, params := [], ID := 1\<rparr>"

definition ex_p1 :: Planner where
  "ex_p1 = ex_p0\<lparr>mOpenList := [ex_root], mId := 1\<rparr>"

definition ex_p2 :: Planner where
  "ex_p2 = ex_p0\<lparr>mOpenList := [ex_pred], mClosedList := [ex_root], mId := 2\<rparr>"

definition ex_p3 :: Planner where
  "ex_p3 =
     ex_p0\<lparr>mOpenList := [], mClosedList := [ex_root, ex_pred], mId := 2, mSuccess := True\<rparr>"

text \<open>A planner whose search has run out: no success, and a plan left from before.\<close>

definition ex_exhausted :: Planner where
  "ex_exhausted =
     ex_p0\<lparr>mClosedList := [ex_root, ex_pred],
       mPlan := [\<lparr>ActionEntry.ac = Some ex_action1, params = []\<rparr>]\<rparr>"

lemmas ex_defs = ex_fact1_def ex_fact2_def ex_set_def ex_state_def ex_action_def ex_action1_def

section \<open>Maps in key order\<close>

lemma map_find_map_of: "map_find m k = map_of m k"
  by (induction m) auto

lemma map_find_None_iff: "map_find m k = None \<longleftrightarrow> k \<notin> fst ` set m"
  by (simp add: map_find_map_of map_of_eq_None_iff)

lemma keys_map_insert: "fst ` set (map_insert k v m) = insert k (fst ` set m)"
proof (induction m)
  case Nil
  show ?case by simp
next
  case (Cons x m)
  obtain a b where x: "x = (a, b)" by (cases x)
  from Cons.IH show ?case unfolding x by (simp add: insert_commute)
qed

lemma map_inv_tail: "map_inv (x # m) \<Longrightarrow> map_inv m"
  by (simp add: map_inv_def)

lemma map_find_tail: "map_inv ((a, b) # m) \<Longrightarrow> map_find m a = None"
  by (force simp add: map_inv_def map_find_None_iff)

lemma map_find_below: "map_inv ((a, b) # m) \<Longrightarrow> k < a \<Longrightarrow> map_find ((a, b) # m) k = None"
  by (force simp add: map_inv_def map_find_None_iff)

lemma map_inv_map_insert: "map_inv m \<Longrightarrow> map_inv (map_insert k v m)"
proof (induction m)
  case Nil
  show ?case by (simp add: map_inv_def)
next
  case (Cons x m)
  obtain a b where x: "x = (a, b)" by (cases x)
  from Cons.prems have m: "map_inv m" and lt: "\<forall>y\<in>set m. a < fst y"
    by (auto simp add: map_inv_def x)
  have "\<forall>y\<in>set (map_insert k v m). a < fst y" if "a < k"
  proof
    fix y assume "y \<in> set (map_insert k v m)"
    then have "fst y \<in> insert k (fst ` set m)"
      using keys_map_insert [of k v m] by blast
    with lt that show "a < fst y" by auto
  qed
  with Cons.IH [OF m] Cons.prems show ?case
    by (auto simp add: map_inv_def x)
qed

lemma map_find_map_insert:
  "map_inv m \<Longrightarrow>
   map_find (map_insert k v m) k' =
     (if k' = k \<and> map_find m k = None then Some v else map_find m k')"
proof (induction m)
  case Nil
  show ?case by simp
next
  case (Cons x m)
  obtain a b where x: "x = (a, b)" by (cases x)
  from Cons.prems have m: "map_inv m" and lt: "\<forall>y\<in>set m. a < fst y"
    by (auto simp add: map_inv_def x)
  have "map_find m k = None" if "k < a"
    using lt that by (force simp add: map_find_None_iff)
  with Cons.IH [OF m] show ?case
    by (auto simp add: x)
qed

lemma finite_found: "finite {k. \<exists>v. map_find m k = Some v \<and> P k v}"
  by (rule finite_subset [of _ "fst ` set m"])
    (auto simp add: map_find_map_of dest: map_of_SomeD intro: rev_image_eqI)

lemma filter_count_keys:
  "map_inv xs \<Longrightarrow> length (filter P xs) = card {k. \<exists>v. map_find xs k = Some v \<and> P (k, v)}"
proof (induction xs)
  case Nil
  show ?case by simp
next
  case (Cons x xs)
  obtain a b where x: "x = (a, b)" by (cases x)
  have xs: "map_inv xs" using Cons.prems by (rule map_inv_tail)
  have na: "map_find xs a = None" using Cons.prems unfolding x by (rule map_find_tail)
  let ?S = "{k. \<exists>v. map_find xs k = Some v \<and> P (k, v)}"
  have fin: "finite ?S" by (rule finite_found)
  have notin: "a \<notin> ?S" using na by simp
  have "{k. \<exists>v. map_find (x # xs) k = Some v \<and> P (k, v)} = (if P (a, b) then insert a ?S else ?S)"
    using na by (auto simp add: x)
  with fin notin Cons.IH [OF xs] show ?case
    by (simp add: x)
qed

subsection \<open>The intersection\<close>

lemma IntersectMaps_loop_inv:
  "map_inv l \<Longrightarrow> map_inv r \<Longrightarrow> map_inv res \<Longrightarrow> map_inv (IntersectMaps_loop l r res)"
proof (induction l r res rule: IntersectMaps_loop.induct)
  case (3 kl vl il kr vr ir result)
  then show ?case
    by (auto simp add: map_inv_map_insert dest: map_inv_tail)
qed simp_all

lemma IntersectMaps_loop_find:
  "map_inv l \<Longrightarrow> map_inv r \<Longrightarrow> map_inv res \<Longrightarrow>
   map_find (IntersectMaps_loop l r res) k =
     (case map_find res k of Some v \<Rightarrow> Some v | None \<Rightarrow> both l r k)"
proof (induction l r res rule: IntersectMaps_loop.induct)
  case (1 ir result)
  show ?case by (simp add: both_def split: option.splits)
next
  case (2 l il result)
  show ?case by (simp add: both_def split: option.splits)
next
  case (3 kl vl il kr vr ir result)
  note inv = "3.prems"
  have il: "map_inv il" and ir: "map_inv ir"
    using inv by (auto dest: map_inv_tail)
  show ?case
  proof (cases "kl < kr")
    case True
    have "map_find ((kr, vr) # ir) kl = None"
      using inv(2) True by (rule map_find_below)
    then have "both ((kl, vl) # il) ((kr, vr) # ir) k = both il ((kr, vr) # ir) k"
      unfolding both_def by (cases "k = kl") (simp_all split: option.splits)
    with True "3.IH"(1) [OF True il inv(2) inv(3)] show ?thesis
      by (simp split: option.splits)
  next
    case False
    show ?thesis
    proof (cases "kr < kl")
      case True
      have "map_find ((kl, vl) # il) kr = None"
        using inv(1) True by (rule map_find_below)
      then have "both ((kl, vl) # il) ((kr, vr) # ir) k = both ((kl, vl) # il) ir k"
        unfolding both_def by (cases "k = kr") (simp_all split: option.splits)
      with True False "3.IH"(2) [OF False True inv(1) ir inv(3)] show ?thesis
        by (simp split: option.splits)
    next
      case nlt: False
      with False have eq: "kr = kl" by simp
      have tl: "map_find il kl = None" "map_find ir kl = None"
        using map_find_tail [OF inv(1)] map_find_tail [OF inv(2)] eq by simp_all
      have ih: "map_find (IntersectMaps_loop il ir (map_insert kl (vl, vr) result)) k =
          (case map_find (map_insert kl (vl, vr) result) k of
             Some v \<Rightarrow> Some v | None \<Rightarrow> both il ir k)"
        using "3.IH"(3) [OF False nlt il ir map_inv_map_insert [OF inv(3)]] .
      show ?thesis
        using False nlt eq tl ih
        by (auto simp add: both_def map_find_map_insert [OF inv(3)] split: option.splits)
    qed
  qed
qed

lemma compStart_loop_count:
  "compStart_loop xs s = s + length (filter (\<lambda>x. fst (snd x) \<noteq> snd (snd x)) xs)"
  by (induction xs s rule: compStart_loop.induct) auto

text \<open>
  Claim C5: for all world states \<open>A\<close> and \<open>B\<close> (mappings in key order, as a
  \<^verbatim>\<open>std::map\<close> is), \<open>compStart A B\<close> is the number of facts present in both with
  different values; it is 0 if and only if every fact present in both has equal
  values. Facts of one state only do not count.
\<close>

theorem compStart_counts:
  assumes "map_inv (mState A)" and "map_inv (mState B)"
  shows "compStart A B =
           card {k. \<exists>a b. map_find (mState A) k = Some a \<and> map_find (mState B) k = Some b \<and> a \<noteq> b} \<and>
         (compStart A B = 0 \<longleftrightarrow>
            (\<forall>k a b. map_find (mState A) k = Some a \<and> map_find (mState B) k = Some b \<longrightarrow> a = b))"
proof -
  let ?I = "IntersectMaps (mState A) (mState B)"
  let ?D = "{k. \<exists>a b. map_find (mState A) k = Some a \<and> map_find (mState B) k = Some b \<and> a \<noteq> b}"
  have nil: "map_inv ([] :: (FactKey, PVal \<times> PVal) cmap)" by (simp add: map_inv_def)
  have inv: "map_inv ?I"
    unfolding IntersectMaps_def by (rule IntersectMaps_loop_inv [OF assms nil])
  have find: "map_find ?I k = both (mState A) (mState B) k" for k
    unfolding IntersectMaps_def by (simp add: IntersectMaps_loop_find [OF assms nil])
  have "{k. \<exists>v. map_find ?I k = Some v \<and> fst (snd (k, v)) \<noteq> snd (snd (k, v))} = ?D"
    by (auto simp add: find both_def split: option.splits)
  then have count: "compStart A B = card ?D"
    using filter_count_keys [OF inv, of "\<lambda>x. fst (snd x) \<noteq> snd (snd x)"]
    by (simp add: compStart_def compStart_loop_count)
  have "finite ?D"
    by (rule finite_subset [of _ "fst ` set (mState A)"])
      (auto simp add: map_find_map_of dest: map_of_SomeD intro: rev_image_eqI)
  then have "card ?D = 0 \<longleftrightarrow> ?D = {}" by simp
  also have "\<dots> \<longleftrightarrow>
      (\<forall>k a b. map_find (mState A) k = Some a \<and> map_find (mState B) k = Some b \<longrightarrow> a = b)"
    by auto
  finally show ?thesis using count by simp
qed

theorem compStart_counts_witness:
  "map_inv (mState ex_state) \<and> map_inv (mState ex_other) \<and>
   compStart ex_state ex_other = 1 \<and>
   card {k. \<exists>a b. map_find (mState ex_state) k = Some a \<and>
                  map_find (mState ex_other) k = Some b \<and> a \<noteq> b} = 1 \<and>
   map_find (mState ex_other) (3, []) = Some 5 \<and> map_find (mState ex_state) (3, []) = None"
proof -
  have a: "map_inv (mState ex_state)"
    by (simp add: ex_state_def map_inv_def)
  have b: "map_inv (mState ex_other)"
    by (simp add: ex_other_def map_inv_def)
  have c: "compStart ex_state ex_other = 1"
    by (simp add: compStart_def IntersectMaps_def ex_state_def ex_other_def)
  from compStart_counts [OF a b] a b c show ?thesis
    by (simp add: ex_state_def ex_other_def)
qed

section \<open>Matching\<close>

lemma postMatch_loop_True:
  "postMatch_loop ws ps cls c = Some True \<longleftrightarrow>
     (\<forall>cl\<in>set cls. \<exists>f opn. fill cl ps = Some (f, opn) \<and> \<not> clause_inconsistent ws f opn) \<and>
     (c > 0 \<or> (\<exists>cl\<in>set cls. \<exists>f opn. fill cl ps = Some (f, opn) \<and> clause_consistent ws f opn))"
proof (induction cls arbitrary: c)
  case Nil
  show ?case by simp
next
  case (Cons cl cls)
  show ?case
  proof (cases "fill cl ps")
    case None
    then show ?thesis by simp
  next
    case (Some fo)
    obtain f opn where fo: "fo = (f, opn)" by (cases fo)
    show ?thesis
    proof (cases "get ws f")
      case None
      then show ?thesis using Some fo Cons.IH [of c]
        by (simp add: clause_consistent_def clause_inconsistent_def)
    next
      case (Some v)
      then show ?thesis using \<open>fill cl ps = Some fo\<close> fo Cons.IH [of c] Cons.IH [of "c + 1"]
        by (auto simp add: clause_consistent_def clause_inconsistent_def)
    qed
  qed
qed

lemma postMatch_loop_defined:
  "list_all (\<lambda>cl. fill cl ps \<noteq> None) cls \<Longrightarrow> postMatch_loop ws ps cls c \<noteq> None"
  by (induction cls arbitrary: c) (auto split: option.splits)

text \<open>
  Claim C1, as stated: \<open>postMatch\<close> returns true if and only if at least one clause of
  the action is consistent with the current state, whatever the other clauses are.
  It fails on the state \<open>{1 \<mapsto> 1, 2 \<mapsto> 1}\<close> and the action "set 1 to 1, set 2 to 2":
  the first clause is consistent, the second is checked, fails, and \<open>postMatch\<close>
  returns false.
\<close>

theorem postMatch_any_clause_counterexample:
  "postMatch ex_state ex_action [] = Some False \<and>
   (ex_fact1, ex_set 1) \<in> set (ops ex_action) \<and>
   fill (ex_fact1, ex_set 1) [] = Some (ex_fact1, ex_set 1) \<and>
   clause_consistent ex_state ex_fact1 (ex_set 1)"
  by (simp add: ex_defs postMatch_def fill_def get_def fact_key_def clause_consistent_def)

text \<open>
  Claim C1, amended: \<open>postMatch\<close> returns true if and only if the action's special
  conditions accept the binding, no clause whose fact has a value fails its check
  (against the effect when the clause has one, against the condition when it has none
  but has a condition), and at least one clause whose fact has a value passes it.
  Clauses whose fact has no value are passed over. When every clause can be filled
  from the binding, \<open>postMatch\<close> returns a defined result.
\<close>

theorem postMatch_iff:
  "(postMatch ws a ps = Some True \<longleftrightarrow>
      checkSpecialConditions a ps \<and>
      (\<forall>cl\<in>set (ops a). \<exists>f opn. fill cl ps = Some (f, opn) \<and> \<not> clause_inconsistent ws f opn) \<and>
      (\<exists>cl\<in>set (ops a). \<exists>f opn. fill cl ps = Some (f, opn) \<and> clause_consistent ws f opn)) \<and>
   (list_all (\<lambda>cl. fill cl ps \<noteq> None) (ops a) \<longrightarrow> postMatch ws a ps \<noteq> None)"
  using postMatch_loop_True [of ws ps "ops a" 0] postMatch_loop_defined [of ps "ops a" ws 0]
  by (auto simp add: postMatch_def)

theorem postMatch_iff_witness:
  "postMatch ex_state ex_action1 [] = Some True \<and>
   checkSpecialConditions ex_action1 [] \<and>
   fill (ex_fact1, ex_set 1) [] = Some (ex_fact1, ex_set 1) \<and>
   clause_consistent ex_state ex_fact1 (ex_set 1) \<and>
   \<not> clause_inconsistent ex_state ex_fact1 (ex_set 1) \<and>
   list_all (\<lambda>cl. fill cl [] \<noteq> None) (ops ex_action1)"
  using postMatch_iff [of ex_state ex_action1 "[]"]
  by (simp add: ex_defs fill_def get_def fact_key_def clause_consistent_def
      clause_inconsistent_def)

section \<open>Consistency with a condition\<close>

text \<open>
  Claim C3: a present value is consistent with a not-equals condition exactly when
  it differs from the target. The code's case for \<open>NotEqual\<close> repeats the test of
  \<open>Equals\<close>: the value 1 differs from the target 2 and is found inconsistent.
\<close>

theorem consistent_NotEqual_differs:
  "consistent 1 NotEqual 2 = False \<and> (1::PVal) \<noteq> 2"
  by simp

section \<open>Reverse and forward application\<close>

text \<open>
  Claim C2: for an action whose clauses are all effect-only, \<open>applyReverse\<close> followed
  by \<open>applyForward\<close> with the same binding gives the state back. \<open>applyForward\<close>
  changes nothing, so what \<open>applyReverse\<close> removed stays removed: on
  \<open>{1 \<mapsto> 1, 2 \<mapsto> 1}\<close> and the action "set 1 to 1" the round trip ends in \<open>{2 \<mapsto> 1}\<close>.
\<close>

theorem applyReverse_applyForward_roundtrip_fails:
  "effect_only ex_action1 \<and>
   applyReverse ex_state ex_action1 [] = Some \<lparr>mState = [((2, []), 1)]\<rparr> \<and>
   applyForward \<lparr>mState = [((2, []), 1)]\<rparr> ex_action1 [] \<noteq> ex_state"
  by (simp add: ex_defs effect_only_def applyReverse_def applyForward_def fill_def
      applyReverse_clause_def unset_raw_def fact_key_def)

section \<open>Parameter bindings\<close>

text \<open>
  Claim C4: every binding of the cross product of the object pool over the parameter
  slots is generated once. With three parameters and a pool of two objects the
  counter goes from \<open>[0, 0, 1]\<close> to \<open>[1, 0, 0]\<close>, not to \<open>[0, 1, 0]\<close>: the carry runs to
  the first slot, since it tests the value read before the loop. The first slot then
  leaves the pool within the eight iterations, and the read of the pool is undefined.
\<close>

theorem build_paramset_three_params:
  "next_objs 2 3 [0, 0, 1] = [1, 0, 0] \<and> build_paramset [10, 20] 3 = None"
  by (simp add: build_paramset_def next_objs_def eval_nat_numeral)

section \<open>The planner\<close>

subsection \<open>The reference heap operations\<close>

lemma mset_sink_least: "mset (sink_least xs) = mset xs"
  by (induction xs rule: sink_least.induct) auto

lemma heap_permutes_list_heap: "heap_permutes list_heap"
  by (simp add: heap_permutes_def list_heap_def mset_sink_least)

subsection \<open>The walk of \<open>finaliseSlicedPlan\<close> ends\<close>

lemma finalise_loop_returns:
  "closed_wf cl \<Longrightarrow> i < length cl \<Longrightarrow> \<exists>pl'. finalise_loop cl i pl = Some pl'"
proof (induction i arbitrary: pl rule: less_induct)
  case (less i)
  show ?case
  proof (cases "i = 0")
    case True
    then show ?thesis by (simp add: finalise_loop.simps)
  next
    case False
    with less.prems have "prev (cl ! i) < i"
      by (simp add: closed_wf_def list_all_iff)
    with less.IH [of "prev (cl ! i)"] less.prems False show ?thesis
      by (subst finalise_loop.simps) simp
  qed
qed

subsection \<open>No state twice in the two lists\<close>

lemma open_scan_None: "open_scan st xs i = None \<longleftrightarrow> st \<notin> state ` set xs"
  by (induction xs arbitrary: i) auto

lemma open_scan_Some:
  "open_scan st xs i = Some k \<Longrightarrow> i \<le> k \<and> k - i < length xs \<and> state (xs ! (k - i)) = st"
proof (induction xs arbitrary: i)
  case Nil
  then show ?case by simp
next
  case (Cons x xs)
  show ?case
  proof (cases "st = state x")
    case True
    with Cons.prems show ?thesis by simp
  next
    case False
    with Cons.prems have "open_scan st xs (Suc i) = Some k" by simp
    from Cons.IH [OF this] show ?thesis by (auto simp add: Suc_diff_Suc less_eq_Suc_le)
  qed
qed

lemma distinct_states_permute:
  "mset xs = mset ys \<Longrightarrow> distinct (map state (xs @ cl)) = distinct (map state (ys @ cl))"
proof -
  assume "mset xs = mset ys"
  then have "mset (map state (xs @ cl)) = mset (map state (ys @ cl))" by simp
  then show ?thesis by (rule mset_eq_imp_distinct_iff)
qed

lemma attemptIntermediate_distinct:
  assumes hp: "heap_permutes hp" and inv: "states_distinct p"
    and run: "attemptIntermediate hp p s a pref plist = Some p'"
  shows "states_distinct p' \<and> mClosedList p' = mClosedList p"
proof (cases "p' = p")
  case True
  with inv show ?thesis by simp
next
  case changed: False
  from run changed have pm: "postMatch (state s) a plist = Some True"
    by (auto simp add: attemptIntermediate_def split: option.splits bool.splits)
  from run pm obtain nstate where ar: "applyReverse (state s) a plist = Some nstate"
    by (auto simp add: attemptIntermediate_def split: option.splits)
  from run pm ar changed have notclosed: "\<not> list_ex (\<lambda>c. nstate = state c) (mClosedList p)"
    by (auto simp add: attemptIntermediate_def)
  from run pm ar notclosed obtain start where st: "mStart p = Some start"
    by (auto simp add: attemptIntermediate_def split: option.splits)
  define n where "n = IntermediateState_new
      \<lparr>state := nstate, G := G s + getCost a * pref, H := real (comp_ws nstate start),
       F := G s + getCost a * pref + real (comp_ws nstate start),
       prev := nat ((int (length (mClosedList p)) - 1) mod 2 ^ 32),
       ac := Some a, params := plist\<rparr>"
  have n: "state n = nstate" by (simp add: n_def)
  note facts = run pm ar notclosed st
  show ?thesis
  proof (cases "open_scan nstate (mOpenList p) 0")
    case None
    then have fresh: "nstate \<notin> state ` set (mOpenList p)"
      by (simp add: open_scan_None)
    from notclosed have fresh': "nstate \<notin> state ` set (mClosedList p)"
      by (auto simp add: list_ex_iff)
    from facts None have p': "p' = p\<lparr>mOpenList := push_heap hp (mOpenList p @ [n\<lparr>ID := mId p\<rparr>]),
        mId := (mId p + 1) mod 2 ^ 32\<rparr>"
      by (simp add: attemptIntermediate_def Let_def n_def)
    have "mset (push_heap hp (mOpenList p @ [n\<lparr>ID := mId p\<rparr>])) = mset (mOpenList p @ [n\<lparr>ID := mId p\<rparr>])"
      using hp by (simp add: heap_permutes_def)
    from distinct_states_permute [OF this, of "mClosedList p"]
    have "distinct (map state (push_heap hp (mOpenList p @ [n\<lparr>ID := mId p\<rparr>]) @ mClosedList p))"
      using inv fresh fresh' n by (simp add: states_distinct_def)
    then show ?thesis by (simp add: states_distinct_def p')
  next
    case (Some k)
    from open_scan_Some [OF this]
    have k: "k < length (mOpenList p)" and sk: "state (mOpenList p ! k) = nstate"
      by simp_all
    from facts Some changed have p': "p' = p\<lparr>mOpenList := make_heap hp ((mOpenList p)[k := n])\<rparr>"
      by (simp add: attemptIntermediate_def Let_def n_def split: if_splits)
    have same: "map state ((mOpenList p)[k := n]) = map state (mOpenList p)"
      using k sk n by (simp add: map_update list_update_same_conv)
    have "mset (make_heap hp ((mOpenList p)[k := n])) = mset ((mOpenList p)[k := n])"
      using hp by (simp add: heap_permutes_def)
    from distinct_states_permute [OF this, of "mClosedList p"]
    have "distinct (map state (make_heap hp ((mOpenList p)[k := n]) @ mClosedList p))"
      using inv same by (simp add: states_distinct_def)
    then show ?thesis by (simp add: states_distinct_def p')
  qed
qed

lemma attempt_all_distinct:
  "heap_permutes hp \<Longrightarrow> states_distinct p \<Longrightarrow> attempt_all hp p s a pref pset = Some p' \<Longrightarrow>
   states_distinct p'"
proof (induction pset arbitrary: p)
  case Nil
  then show ?case by simp
next
  case (Cons plist pset)
  from Cons.prems(3) obtain q where q: "attemptIntermediate hp p s a pref plist = Some q"
    and rest: "attempt_all hp q s a pref pset = Some p'"
    by (auto split: option.splits)
  from attemptIntermediate_distinct [OF Cons.prems(1,2) q] have "states_distinct q" by simp
  from Cons.IH [OF Cons.prems(1) this rest] show ?case .
qed

lemma actions_loop_distinct:
  "heap_permutes hp \<Longrightarrow> states_distinct p \<Longrightarrow> actions_loop hp p s aset = Some p' \<Longrightarrow>
   states_distinct p'"
proof (induction hp p s aset rule: actions_loop.induct)
  case (1 hp p s)
  then show ?case by simp
next
  case (2 hp p s pref rest)
  then show ?case by simp
next
  case (3 hp p s a pref rest)
  from "3.prems"(3) obtain q where
    q: "(if getNumParams a \<noteq> 0 \<and> mObjects p \<noteq> []
         then (case build_paramset (mObjects p) (getNumParams a) of
                 None \<Rightarrow> None
               | Some pset \<Rightarrow> attempt_all hp p s a pref pset)
         else attemptIntermediate hp p s a pref []) = Some q"
    and rest: "actions_loop hp q s rest = Some p'"
    by (auto split: option.splits)
  have "states_distinct q"
  proof (cases "getNumParams a \<noteq> 0 \<and> mObjects p \<noteq> []")
    case True
    with q obtain pset where "attempt_all hp p s a pref pset = Some q"
      by (auto split: option.splits)
    from attempt_all_distinct [OF "3.prems"(1,2) this] show ?thesis .
  next
    case False
    with q have "attemptIntermediate hp p s a pref [] = Some q" by auto
    from attemptIntermediate_distinct [OF "3.prems"(1,2) this] show ?thesis by simp
  qed
  from "3.IH" [OF q "3.prems"(1) this rest] show ?case .
qed

lemma updateSlicedPlan_distinct:
  assumes hp: "heap_permutes hp" and inv: "states_distinct p"
    and run: "updateSlicedPlan hp p = Some (b, p')"
  shows "states_distinct p'"
proof (cases "mOpenList p = []")
  case True
  with run inv show ?thesis by (simp add: updateSlicedPlan_def)
next
  case False
  define ol where "ol = pop_heap hp (mOpenList p)"
  define p1 where "p1 = p\<lparr>mOpenList := butlast ol, mClosedList := mClosedList p @ [last ol]\<rparr>"
  have ms: "mset ol = mset (mOpenList p)"
    using hp by (simp add: heap_permutes_def ol_def)
  with False have "ol \<noteq> []" by auto
  then have e: "butlast ol @ [last ol] = ol" by simp
  have "mset (map state (butlast ol @ mClosedList p @ [last ol])) =
      mset (map state ((butlast ol @ [last ol]) @ mClosedList p))"
    by simp
  also have "\<dots> = mset (map state (mOpenList p @ mClosedList p))"
    unfolding e using ms by simp
  finally have "mset (map state (butlast ol @ mClosedList p @ [last ol])) =
      mset (map state (mOpenList p @ mClosedList p))" .
  from mset_eq_imp_distinct_iff [OF this] inv have inv1: "states_distinct p1"
    by (simp only: states_distinct_def p1_def simp_thms) simp
  show ?thesis
  proof (cases "mStart p")
    case None
    with False run show ?thesis by (simp add: updateSlicedPlan_def Let_def)
  next
    case (Some start)
    show ?thesis
    proof (cases "compStart (state (last ol)) start = 0")
      case True
      with False Some run have "p' = p1\<lparr>mSuccess := True\<rparr>"
        by (simp add: updateSlicedPlan_def Let_def ol_def p1_def)
      with inv1 show ?thesis by (simp add: states_distinct_def)
    next
      case nz: False
      with False Some run obtain aset where "actions_loop hp p1 (last ol) aset = Some p'"
        by (auto simp add: updateSlicedPlan_def Let_def ol_def p1_def split: option.splits)
      from actions_loop_distinct [OF hp inv1 this] show ?thesis .
    qed
  qed
qed

lemma reachable_distinct:
  "reachable hp p \<Longrightarrow> heap_permutes hp \<Longrightarrow> states_distinct p"
proof (induction rule: reachable.induct)
  case (idle p)
  then show ?case by (simp add: states_distinct_def)
next
  case (init p)
  then show ?case by (simp add: states_distinct_def initSlicedPlan_def Let_def)
next
  case (update p b p')
  from updateSlicedPlan_distinct [OF update.prems update.IH [OF update.prems] update.hyps(2)]
  show ?case .
qed

subsection \<open>Predecessors come earlier\<close>

lemma heap_permutes_set:
  "heap_permutes hp \<Longrightarrow>
   set (pop_heap hp xs) = set xs \<and> set (push_heap hp xs) = set xs \<and> set (make_heap hp xs) = set xs"
proof -
  assume "heap_permutes hp"
  then have "mset (pop_heap hp xs) = mset xs" "mset (push_heap hp xs) = mset xs"
    "mset (make_heap hp xs) = mset xs"
    by (simp_all add: heap_permutes_def)
  then show ?thesis by (blast dest: mset_eq_setD)
qed

lemma wrapped_pred_less: "cl \<noteq> [] \<Longrightarrow> nat ((int (length cl) - 1) mod 2 ^ 32) < length cl"
  by (cases cl) (auto simp add: nat_less_iff intro: le_less_trans [OF zmod_le_nonneg_dividend])

lemma attemptIntermediate_prev_ok:
  assumes hp: "heap_permutes hp" and inv: "prev_ok p" and ne: "mClosedList p \<noteq> []"
    and run: "attemptIntermediate hp p s a pref plist = Some p'"
  shows "prev_ok p' \<and> mClosedList p' = mClosedList p"
proof (cases "p' = p")
  case True
  with inv show ?thesis by simp
next
  case changed: False
  from run changed have pm: "postMatch (state s) a plist = Some True"
    by (auto simp add: attemptIntermediate_def split: option.splits bool.splits)
  from run pm obtain nstate where ar: "applyReverse (state s) a plist = Some nstate"
    by (auto simp add: attemptIntermediate_def split: option.splits)
  from run pm ar changed have notclosed: "\<not> list_ex (\<lambda>c. nstate = state c) (mClosedList p)"
    by (auto simp add: attemptIntermediate_def)
  from run pm ar notclosed obtain start where st: "mStart p = Some start"
    by (auto simp add: attemptIntermediate_def split: option.splits)
  define n where "n = IntermediateState_new
      \<lparr>state := nstate, G := G s + getCost a * pref, H := real (comp_ws nstate start),
       F := G s + getCost a * pref + real (comp_ws nstate start),
       prev := nat ((int (length (mClosedList p)) - 1) mod 2 ^ 32),
       ac := Some a, params := plist\<rparr>"
  have n: "prev n < length (mClosedList p)"
    using wrapped_pred_less [OF ne] by (simp add: n_def)
  from inv ne have old: "list_all (\<lambda>n. prev n < length (mClosedList p)) (mOpenList p)"
    and cl: "list_all (\<lambda>i. prev (mClosedList p ! i) < i) [1..<length (mClosedList p)]"
    by (simp_all add: prev_ok_def)
  note facts = run pm ar notclosed st
  show ?thesis
  proof (cases "open_scan nstate (mOpenList p) 0")
    case None
    from facts None have p': "p' = p\<lparr>mOpenList := push_heap hp (mOpenList p @ [n\<lparr>ID := mId p\<rparr>]),
        mId := (mId p + 1) mod 2 ^ 32\<rparr>"
      by (simp add: attemptIntermediate_def Let_def n_def)
    have "set (push_heap hp (mOpenList p @ [n\<lparr>ID := mId p\<rparr>])) = set (mOpenList p @ [n\<lparr>ID := mId p\<rparr>])"
      using heap_permutes_set [OF hp] by simp
    with old n have "list_all (\<lambda>n. prev n < length (mClosedList p))
        (push_heap hp (mOpenList p @ [n\<lparr>ID := mId p\<rparr>]))"
      by (simp add: list_all_iff)
    with cl ne show ?thesis by (simp add: prev_ok_def p')
  next
    case (Some k)
    from facts Some changed have p': "p' = p\<lparr>mOpenList := make_heap hp ((mOpenList p)[k := n])\<rparr>"
      by (simp add: attemptIntermediate_def Let_def n_def split: if_splits)
    have "set (make_heap hp ((mOpenList p)[k := n])) = set ((mOpenList p)[k := n])"
      using heap_permutes_set [OF hp] by simp
    moreover have "set ((mOpenList p)[k := n]) \<subseteq> insert n (set (mOpenList p))"
      by (rule set_update_subset_insert)
    ultimately have "list_all (\<lambda>n. prev n < length (mClosedList p))
        (make_heap hp ((mOpenList p)[k := n]))"
      using old n by (auto simp add: list_all_iff)
    with cl ne show ?thesis by (simp add: prev_ok_def p')
  qed
qed

lemma attempt_all_prev_ok:
  "heap_permutes hp \<Longrightarrow> prev_ok p \<Longrightarrow> mClosedList p \<noteq> [] \<Longrightarrow>
   attempt_all hp p s a pref pset = Some p' \<Longrightarrow>
   prev_ok p' \<and> mClosedList p' = mClosedList p"
proof (induction pset arbitrary: p)
  case Nil
  then show ?case by simp
next
  case (Cons plist pset)
  from Cons.prems(4) obtain q where q: "attemptIntermediate hp p s a pref plist = Some q"
    and rest: "attempt_all hp q s a pref pset = Some p'"
    by (auto split: option.splits)
  from attemptIntermediate_prev_ok [OF Cons.prems(1,2,3) q]
  have "prev_ok q" and c: "mClosedList q = mClosedList p" by simp_all
  with Cons.IH [of q] Cons.prems(1,3) rest show ?case by simp
qed

lemma actions_loop_prev_ok:
  "heap_permutes hp \<Longrightarrow> prev_ok p \<Longrightarrow> mClosedList p \<noteq> [] \<Longrightarrow>
   actions_loop hp p s aset = Some p' \<Longrightarrow>
   prev_ok p' \<and> mClosedList p' = mClosedList p"
proof (induction hp p s aset rule: actions_loop.induct)
  case (1 hp p s)
  then show ?case by simp
next
  case (2 hp p s pref rest)
  then show ?case by simp
next
  case (3 hp p s a pref rest)
  from "3.prems"(4) obtain q where
    q: "(if getNumParams a \<noteq> 0 \<and> mObjects p \<noteq> []
         then (case build_paramset (mObjects p) (getNumParams a) of
                 None \<Rightarrow> None
               | Some pset \<Rightarrow> attempt_all hp p s a pref pset)
         else attemptIntermediate hp p s a pref []) = Some q"
    and rest: "actions_loop hp q s rest = Some p'"
    by (auto split: option.splits)
  have "prev_ok q \<and> mClosedList q = mClosedList p"
  proof (cases "getNumParams a \<noteq> 0 \<and> mObjects p \<noteq> []")
    case True
    with q obtain pset where "attempt_all hp p s a pref pset = Some q"
      by (auto split: option.splits)
    from attempt_all_prev_ok [OF "3.prems"(1,2,3) this] show ?thesis .
  next
    case False
    with q have "attemptIntermediate hp p s a pref [] = Some q" by auto
    from attemptIntermediate_prev_ok [OF "3.prems"(1,2,3) this] show ?thesis .
  qed
  with "3.IH" [OF q "3.prems"(1) _ _ rest] "3.prems"(3) show ?case by simp
qed

lemma updateSlicedPlan_prev_ok:
  assumes hp: "heap_permutes hp" and inv: "prev_ok p"
    and run: "updateSlicedPlan hp p = Some (b, p')"
  shows "prev_ok p'"
proof (cases "mOpenList p = []")
  case True
  with run inv show ?thesis by (simp add: updateSlicedPlan_def)
next
  case False
  define ol where "ol = pop_heap hp (mOpenList p)"
  define p1 where "p1 = p\<lparr>mOpenList := butlast ol, mClosedList := mClosedList p @ [last ol]\<rparr>"
  have ms: "mset ol = mset (mOpenList p)"
    using hp by (simp add: heap_permutes_def ol_def)
  with False have ne: "ol \<noteq> []" by auto
  have len: "length ol = length (mOpenList p)"
    using ms by (rule mset_eq_length)
  have sub: "set ol = set (mOpenList p)"
    using ms by (rule mset_eq_setD)
  have last_in: "last ol \<in> set (mOpenList p)"
    using last_in_set [OF ne] sub by simp
  have but_in: "set (butlast ol) \<subseteq> set (mOpenList p)"
    using sub by (auto dest: in_set_butlastD)
  have inv1: "prev_ok p1"
  proof (cases "mClosedList p = []")
    case True
    with inv have "length (mOpenList p) \<le> 1" by (simp add: prev_ok_def)
    with len have "length ol \<le> 1" by simp
    then have "butlast ol = []" by (cases ol) simp_all
    with True show ?thesis by (simp add: prev_ok_def p1_def)
  next
    case nonempty: False
    with inv have old: "list_all (\<lambda>n. prev n < length (mClosedList p)) (mOpenList p)"
      and cl: "list_all (\<lambda>i. prev (mClosedList p ! i) < i) [1..<length (mClosedList p)]"
      by (simp_all add: prev_ok_def)
    from old last_in have l: "prev (last ol) < length (mClosedList p)"
      by (simp add: list_all_iff)
    from old but_in have b: "list_all (\<lambda>n. prev n < Suc (length (mClosedList p))) (butlast ol)"
      by (auto simp add: list_all_iff intro: less_SucI)
    have "prev ((mClosedList p @ [last ol]) ! i) < i"
      if "1 \<le> i" "i < Suc (length (mClosedList p))" for i
    proof (cases "i < length (mClosedList p)")
      case True
      with cl that show ?thesis by (simp add: list_all_iff nth_append)
    next
      case False
      with that have "i = length (mClosedList p)" by simp
      with l show ?thesis by simp
    qed
    then have "list_all (\<lambda>i. prev ((mClosedList p @ [last ol]) ! i) < i)
        [1..<Suc (length (mClosedList p))]"
      unfolding list_all_iff by auto
    with b show ?thesis by (simp add: prev_ok_def p1_def)
  qed
  have ne1: "mClosedList p1 \<noteq> []" by (simp add: p1_def)
  show ?thesis
  proof (cases "mStart p")
    case None
    with False run show ?thesis by (simp add: updateSlicedPlan_def Let_def)
  next
    case (Some start)
    show ?thesis
    proof (cases "compStart (state (last ol)) start = 0")
      case True
      with False Some run have "p' = p1\<lparr>mSuccess := True\<rparr>"
        by (simp add: updateSlicedPlan_def Let_def ol_def p1_def)
      with inv1 ne1 show ?thesis by (simp add: prev_ok_def)
    next
      case nz: False
      with False Some run obtain aset where "actions_loop hp p1 (last ol) aset = Some p'"
        by (auto simp add: updateSlicedPlan_def Let_def ol_def p1_def split: option.splits)
      from actions_loop_prev_ok [OF hp inv1 ne1 this] show ?thesis by simp
    qed
  qed
qed

lemma searching_prev_ok: "searching hp p \<Longrightarrow> heap_permutes hp \<Longrightarrow> prev_ok p"
proof (induction rule: searching.induct)
  case (started p0 p)
  from started.hyps have "mClosedList p = []" "length (mOpenList p) = 1" "\<not> mSuccess p"
    by (auto simp add: initSlicedPlan_def Let_def split: if_splits)
  then show ?case by (simp add: prev_ok_def)
next
  case (stepped p b p')
  from updateSlicedPlan_prev_ok [OF stepped.prems stepped.IH [OF stepped.prems] stepped.hyps(2)]
  show ?case .
qed

lemma searching_closed_wf:
  "searching hp p \<Longrightarrow> heap_permutes hp \<Longrightarrow> success p \<Longrightarrow> closed_wf (mClosedList p)"
  using searching_prev_ok [of hp p]
  by (auto simp add: prev_ok_def closed_wf_def success_def split: if_splits)

subsection \<open>A search, step by step\<close>

lemma ex_init: "initSlicedPlan ex_p0 = (True, ex_p1)"
  by (simp add: ex_p1_def ex_p0_def ex_root_def initSlicedPlan_def Planner_new_def Let_def
      IntermediateState_new_def)

lemma ex_postMatch: "postMatch ex_state ex_action1 [] = Some True"
  by (simp add: ex_defs postMatch_def fill_def get_def fact_key_def)

lemma ex_applyReverse: "applyReverse ex_state ex_action1 [] = Some ex_rest"
  by (simp add: ex_defs ex_rest_def applyReverse_def fill_def applyReverse_clause_def
      unset_raw_def fact_key_def)

lemma ex_compStart1: "compStart ex_state ex_start = 1"
  by (simp add: compStart_def IntersectMaps_def ex_state_def ex_start_def)

lemma ex_compStart2: "compStart ex_rest ex_start = 0"
  by (simp add: compStart_def IntersectMaps_def ex_rest_def ex_start_def)

lemma ex_comp: "comp_ws ex_rest ex_start = 1"
  by (simp add: comp_ws_def ex_rest_def ex_start_def)


lemma ex_attempt:
  "attemptIntermediate list_heap (ex_p1\<lparr>mOpenList := [], mClosedList := [ex_root]\<rparr>)
     ex_root ex_action1 1 [] = Some ex_p2"
proof -
  have s: "state ex_root = ex_state" "G ex_root = 0"
    by (simp_all add: ex_root_def IntermediateState_new_def)
  have ne: "ex_rest \<noteq> ex_state"
    by (simp add: ex_rest_def ex_state_def)
  have c: "getCost ex_action1 = 1"
    by (simp add: ex_action1_def)
  show ?thesis
    by (simp add: attemptIntermediate_def s ex_postMatch ex_applyReverse ne ex_comp c Let_def
        ex_p0_def ex_p1_def Planner_new_def ex_p2_def ex_pred_def list_heap_def
        IntermediateState_new_def)
qed

lemma ex_step1: "updateSlicedPlan list_heap ex_p1 = Some (True, ex_p2)"
proof -
  have pop: "pop_heap list_heap [ex_root] = [ex_root]"
    by (simp add: list_heap_def)
  have m: "mOpenList ex_p1 = [ex_root]" "mClosedList ex_p1 = []" "mStart ex_p1 = Some ex_start"
    "mActions ex_p1 = Some [(Some ex_action1, 1)]"
    by (simp_all add: ex_p1_def ex_p0_def Planner_new_def)
  have s: "state ex_root = ex_state"
    by (simp add: ex_root_def IntermediateState_new_def)
  have n: "getNumParams ex_action1 = 0"
    by (simp add: ex_action1_def)
  show ?thesis
    by (simp add: updateSlicedPlan_def m pop Let_def s ex_compStart1 n ex_attempt)
qed

lemma ex_step2: "updateSlicedPlan list_heap ex_p2 = Some (False, ex_p3)"
proof -
  have pop: "pop_heap list_heap [ex_pred] = [ex_pred]"
    by (simp add: list_heap_def)
  have m: "mOpenList ex_p2 = [ex_pred]" "mClosedList ex_p2 = [ex_root]" "mStart ex_p2 = Some ex_start"
    by (simp_all add: ex_p2_def ex_p0_def Planner_new_def)
  have s: "state ex_pred = ex_rest"
    by (simp add: ex_pred_def IntermediateState_new_def)
  show ?thesis
    by (simp add: updateSlicedPlan_def m pop Let_def s ex_compStart2) (simp add: ex_p2_def ex_p3_def)
qed

lemma ex_searching: "searching list_heap ex_p3"
proof -
  have "searching list_heap ex_p1"
    using ex_init by (rule searching.started)
  then have "searching list_heap ex_p2"
    using ex_step1 by (rule searching.stepped)
  then show ?thesis
    using ex_step2 by (rule searching.stepped)
qed

subsection \<open>The claims on the planner\<close>

text \<open>
  Claim C10: after the default constructor the start, goal and action set pointers are
  null, so \<open>initSlicedPlan\<close> fails. The default constructor assigns none of them:
  when the storage held non-null pointers, \<open>initSlicedPlan\<close> passes its check and
  returns true.
\<close>

theorem Planner_default_keeps_junk:
  "mStart (Planner_default (Planner_new (Some ex_state) (Some ex_state) None (Some []))) \<noteq> None \<and>
   fst (initSlicedPlan
          (Planner_default (Planner_new (Some ex_state) (Some ex_state) None (Some [])))) = True"
  by (simp add: Planner_default_def Planner_new_def initSlicedPlan_def Let_def)

text \<open>
  Claim C6: \<open>initSlicedPlan\<close> returns false if and only if the start state, the goal
  state or the action set is null; when it returns true, the success flag is reset,
  the closed list is empty and the open list holds exactly one node, whose state is
  the goal state and whose ID is 0.
\<close>

theorem initSlicedPlan_spec:
  "(fst (initSlicedPlan p) = False \<longleftrightarrow> (mStart p = None \<or> mGoal p = None \<or> mActions p = None)) \<and>
   (fst (initSlicedPlan p) \<longrightarrow>
      mSuccess (snd (initSlicedPlan p)) = False \<and>
      mClosedList (snd (initSlicedPlan p)) = [] \<and>
      (\<exists>n. mOpenList (snd (initSlicedPlan p)) = [n] \<and> Some (state n) = mGoal p \<and> ID n = 0))"
  by (auto simp add: initSlicedPlan_def Let_def)

theorem initSlicedPlan_spec_witness:
  "fst (initSlicedPlan (Planner_new (Some WorldState_new) (Some ex_state) None (Some []))) \<and>
   mSuccess (snd (initSlicedPlan
     (Planner_new (Some WorldState_new) (Some ex_state) None (Some [])))) = False \<and>
   mClosedList (snd (initSlicedPlan
     (Planner_new (Some WorldState_new) (Some ex_state) None (Some [])))) = [] \<and>
   map state (mOpenList (snd (initSlicedPlan
     (Planner_new (Some WorldState_new) (Some ex_state) None (Some []))))) = [ex_state] \<and>
   map ID (mOpenList (snd (initSlicedPlan
     (Planner_new (Some WorldState_new) (Some ex_state) None (Some []))))) = [0]"
  using initSlicedPlan_spec [of "Planner_new (Some WorldState_new) (Some ex_state) None (Some [])"]
  by (auto simp add: Planner_new_def)

text \<open>
  Claim C8: when the search has ended without success, \<open>finaliseSlicedPlan\<close> leaves
  an empty plan, which \<open>getPlan\<close> returns; and it clears the open and the closed list
  with or without success. With success the walk up the closed list has to end,
  which it does on a closed list as a search builds it (\<open>closed_wf\<close>, by
  \<open>searching_closed_wf\<close> above).
\<close>

theorem finaliseSlicedPlan_clears:
  "\<not> success p \<or> closed_wf (mClosedList p) \<Longrightarrow>
   \<exists>p'. finaliseSlicedPlan p = Some p' \<and> mOpenList p' = [] \<and> mClosedList p' = [] \<and>
        (\<not> success p \<longrightarrow> getPlan p' = [])"
proof (cases "success p")
  case False
  then show ?thesis by (simp add: finaliseSlicedPlan_def getPlan_def)
next
  case True
  assume "\<not> success p \<or> closed_wf (mClosedList p)"
  with True have wf: "closed_wf (mClosedList p)" by simp
  then have "mClosedList p \<noteq> []" by (simp add: closed_wf_def)
  then have "nat ((int (length (mClosedList p)) - 1) mod 2 ^ 32) < length (mClosedList p)"
    by (cases "mClosedList p")
      (auto simp add: nat_less_iff intro: le_less_trans [OF zmod_le_nonneg_dividend])
  from finalise_loop_returns [OF wf this, of "[]"] True show ?thesis
    by (auto simp add: finaliseSlicedPlan_def)
qed

theorem finaliseSlicedPlan_clears_witness:
  "\<not> success ex_exhausted \<and> mClosedList ex_exhausted \<noteq> [] \<and> mPlan ex_exhausted \<noteq> [] \<and>
   (\<exists>p'. finaliseSlicedPlan ex_exhausted = Some p' \<and> mOpenList p' = [] \<and>
         mClosedList p' = [] \<and> getPlan p' = []) \<and>
   success ex_p3 \<and> closed_wf (mClosedList ex_p3) \<and>
   (\<exists>p'. finaliseSlicedPlan ex_p3 = Some p' \<and> mOpenList p' = [] \<and> mClosedList p' = [])"
proof -
  have a: "\<not> success ex_exhausted"
    by (simp add: ex_exhausted_def ex_p0_def Planner_new_def success_def)
  have b: "success ex_p3"
    by (simp add: ex_p3_def success_def)
  have c: "closed_wf (mClosedList ex_p3)"
    by (simp add: ex_p3_def closed_wf_def ex_pred_def upt_rec [of 1])
  from finaliseSlicedPlan_clears [of ex_exhausted] finaliseSlicedPlan_clears [of ex_p3] a b c
  show ?thesis
    by (simp add: ex_exhausted_def)
qed

text \<open>
  Claim C9: if the goal state already agrees with the start state, that is
  \<open>compStart goal start = 0\<close>, then after \<open>initSlicedPlan\<close> the first \<open>updateSlicedPlan\<close>
  sets the success flag and returns false ("stop"), with the root node alone in the
  closed list; \<open>finaliseSlicedPlan\<close> then leaves the success flag set and the plan
  empty, so the root node's action is not in the plan.
\<close>

theorem goal_agrees_with_start:
  assumes "heap_permutes hp" and "mStart p = Some start" and "mGoal p = Some goal"
    and "mActions p = Some aset" and "compStart goal start = 0"
  shows "\<exists>p1 p2 p3. initSlicedPlan p = (True, p1) \<and>
           updateSlicedPlan hp p1 = Some (False, p2) \<and> success p2 \<and>
           mClosedList p2 = [IntermediateState_new\<lparr>state := goal, ID := 0\<rparr>] \<and>
           finaliseSlicedPlan p2 = Some p3 \<and> success p3 \<and> getPlan p3 = []"
proof -
  have pop: "pop_heap hp [n] = [n]" for n
    using assms(1) [unfolded heap_permutes_def]
    by (metis mset_single_iff mset.simps(2) mset.simps(1))
  show ?thesis
    using assms(2-5)
    by (simp add: initSlicedPlan_def updateSlicedPlan_def Let_def pop success_def
        finaliseSlicedPlan_def finalise_loop.simps getPlan_def)
qed

theorem goal_agrees_with_start_witness:
  "heap_permutes list_heap \<and> compStart ex_state ex_state = 0 \<and>
   (\<exists>p1 p2 p3.
      initSlicedPlan
        (Planner_new (Some ex_state) (Some ex_state) None (Some [(Some ex_action1, 1)])) =
        (True, p1) \<and>
      updateSlicedPlan list_heap p1 = Some (False, p2) \<and> success p2 \<and>
      finaliseSlicedPlan p2 = Some p3 \<and> success p3 \<and> getPlan p3 = [])"
proof -
  have c: "compStart ex_state ex_state = 0"
    by (simp add: compStart_def IntersectMaps_def ex_state_def)
  from goal_agrees_with_start [OF heap_permutes_list_heap _ _ _ c,
      of "Planner_new (Some ex_state) (Some ex_state) None (Some [(Some ex_action1, 1)])"
        "[(Some ex_action1, 1)]"]
  show ?thesis using c heap_permutes_list_heap by (simp add: Planner_new_def) blast
qed

text \<open>
  Claim C7: throughout a search, that is in every planner state reached by calls of
  \<open>initSlicedPlan\<close> and \<open>updateSlicedPlan\<close>, no two entries of the closed list hold
  equal world states.
\<close>

theorem closed_states_distinct:
  "heap_permutes hp \<Longrightarrow> reachable hp p \<Longrightarrow> distinct (map state (mClosedList p))"
  using reachable_distinct [of hp p] by (simp add: states_distinct_def)

theorem closed_states_distinct_witness:
  "heap_permutes list_heap \<and> reachable list_heap ex_p3 \<and>
   length (mClosedList ex_p3) = 2 \<and> distinct (map state (mClosedList ex_p3))"
proof -
  have "reachable list_heap ex_p0"
    by (rule reachable.idle) (simp_all add: ex_p0_def Planner_new_def)
  then have "reachable list_heap (snd (initSlicedPlan ex_p0))"
    by (rule reachable.init)
  then have "reachable list_heap ex_p1"
    by (simp add: ex_init)
  then have "reachable list_heap ex_p2"
    using ex_step1 by (rule reachable.update)
  then have r: "reachable list_heap ex_p3"
    using ex_step2 by (rule reachable.update)
  have "length (mClosedList ex_p3) = 2"
    by (simp add: ex_p3_def)
  with r heap_permutes_list_heap closed_states_distinct [OF heap_permutes_list_heap r]
  show ?thesis by simp
qed

end
